theory Spec2Isabelle
  imports Main "HOL-Library.Multiset"
begin

section \<open>The registry module \<^verbatim>\<open>python/cudf/cudf/_lib/__init__.py\<close>\<close>

text \<open>
  The file is one statement,
  \<^verbatim>\<open>from . import (avro, binops, ..., utils)\<close>,
  an import from the package itself (one dot, no module part) of a parenthesised list of
  names; \<open>FromImport\<close> is that form of statement, with its names. A module is the list
  of its top-level statements; the kinds of statement that would carry logic of the
  module's own (a function definition, a class definition, an assignment) are
  constructors too, so that their absence is a fact about the value \<open>lib_init\<close> and not
  about the type.
\<close>

datatype stmt =
    FromImport "string list"
  | FunctionDef string
  | ClassDef string
  | Assign string

text \<open>The source, name for name and in the order of its lines 2 to 28.\<close>

definition lib_init :: "stmt list" where
  "lib_init =
     [FromImport
        [''avro'', ''binops'', ''concat'', ''copying'', ''csv'', ''cudf'', ''dlpack'',
         ''gpuarrow'', ''groupby'', ''hash'', ''issorted'', ''join'', ''json'', ''nvtx'',
         ''orc'', ''parquet'', ''quantile'', ''reduce'', ''replace'', ''rolling'',
         ''search'', ''sort'', ''stream_compaction'', ''transpose'', ''typecast'',
         ''unaryops'', ''utils'']]"

text \<open>The dotted name of the package the file initialises.\<close>

definition lib_package :: string where
  "lib_package = ''cudf._lib''"

fun imported_names :: "stmt list \<Rightarrow> string list" where
  "imported_names [] = []"
| "imported_names (FromImport ns # ss) = ns @ imported_names ss"
| "imported_names (s # ss) = imported_names ss"

fun defined_functions :: "stmt list \<Rightarrow> string list" where
  "defined_functions [] = []"
| "defined_functions (FunctionDef f # ss) = f # defined_functions ss"
| "defined_functions (s # ss) = defined_functions ss"

fun defined_classes :: "stmt list \<Rightarrow> string list" where
  "defined_classes [] = []"
| "defined_classes (ClassDef c # ss) = c # defined_classes ss"
| "defined_classes (s # ss) = defined_classes ss"

fun is_import :: "stmt \<Rightarrow> bool" where
  "is_import (FromImport ns) = True"
| "is_import s = False"

subsection \<open>Executing the module\<close>

text \<open>
  Python runs a module's statements in order when the module is first imported. For
  \<^verbatim>\<open>from . import a, b\<close> inside the package \<open>p\<close> the interpreter first loads every
  listed submodule \<open>p.a\<close>, \<open>p.b\<close> in the order written (each load runs that submodule;
  an exception raised by it propagates), and only then binds the names in the importing
  module's namespace. Whether a submodule loads is a fact about the installation, not
  about this file: it is the parameter \<open>loads\<close>, on dotted module names. An exception
  ends the execution of the module, so the import of the package fails with it. The
  interpreter's state is the list of loaded modules and the namespace of the module
  being run, the names its statements bind (the attributes every module is born with,
  such as its own name, are not listed).
\<close>

datatype py_error = ImportError string

record interp =
  sys_modules :: "string list"
  namespace :: "(string \<times> string) list"

definition qualify :: "string \<Rightarrow> string \<Rightarrow> string" where
  "qualify pkg n = pkg @ ''.'' @ n"

fun load_all :: "(string \<Rightarrow> bool) \<Rightarrow> string \<Rightarrow> string list \<Rightarrow> string list
    \<Rightarrow> py_error + string list" where
  "load_all loads pkg [] loaded = Inr loaded"
| "load_all loads pkg (n # ns) loaded =
     (if loads (qualify pkg n) then load_all loads pkg ns (loaded @ [qualify pkg n])
      else Inl (ImportError n))"

fun exec_stmt :: "(string \<Rightarrow> bool) \<Rightarrow> string \<Rightarrow> interp \<Rightarrow> stmt \<Rightarrow> py_error + interp" where
  "exec_stmt loads pkg st (FromImport ns) =
     (case load_all loads pkg ns (sys_modules st) of
        Inl e \<Rightarrow> Inl e
      | Inr loaded \<Rightarrow>
          Inr (st\<lparr>sys_modules := loaded,
                 namespace := namespace st @ map (\<lambda>n. (n, qualify pkg n)) ns\<rparr>))"
| "exec_stmt loads pkg st (FunctionDef f) =
     Inr (st\<lparr>namespace := namespace st @ [(f, ''<function>'')]\<rparr>)"
| "exec_stmt loads pkg st (ClassDef c) =
     Inr (st\<lparr>namespace := namespace st @ [(c, ''<class>'')]\<rparr>)"
| "exec_stmt loads pkg st (Assign x) =
     Inr (st\<lparr>namespace := namespace st @ [(x, ''<object>'')]\<rparr>)"

fun exec_module :: "(string \<Rightarrow> bool) \<Rightarrow> string \<Rightarrow> interp \<Rightarrow> stmt list \<Rightarrow> py_error + interp" where
  "exec_module loads pkg st [] = Inr st"
| "exec_module loads pkg st (s # ss) =
     (case exec_stmt loads pkg st s of
        Inl e \<Rightarrow> Inl e
      | Inr st' \<Rightarrow> exec_module loads pkg st' ss)"

definition import_package :: "(string \<Rightarrow> bool) \<Rightarrow> py_error + interp" where
  "import_package loads =
     exec_module loads lib_package \<lparr>sys_modules = [], namespace = []\<rparr> lib_init"

text \<open>Two installations: one where every module loads, one where only the JSON reader
  does not.\<close>

definition loads_everything :: "string \<Rightarrow> bool" where
  "loads_everything m = True"

definition loads_all_but_json :: "string \<Rightarrow> bool" where
  "loads_all_but_json m = (m \<noteq> ''cudf._lib.json'')"

subsection \<open>The catalogue the specification names\<close>

text \<open>
  These four lists follow the specification's words, not the source. Its binding contract
  lists thirteen engine entry points; its purpose statement and its external interfaces
  name five file-format readers, the Arrow and DLPack interchange, and tracing hooks.
  The submodules are matched by name: \<open>gpuarrow\<close> and \<open>dlpack\<close> are the interchange,
  \<open>nvtx\<close> is the tracing.
\<close>

definition spec_entry_points :: "string list" where
  "spec_entry_points =
     [''join'', ''groupby'', ''sort'', ''hash'', ''search'', ''stream_compaction'',
      ''typecast'', ''unaryops'', ''binops'', ''quantile'', ''reduce'', ''rolling'',
      ''transpose'']"

definition spec_readers :: "string list" where
  "spec_readers = [''csv'', ''json'', ''parquet'', ''orc'', ''avro'']"

definition spec_interchange :: "string list" where
  "spec_interchange = [''gpuarrow'', ''dlpack'']"

definition spec_tracing :: "string list" where
  "spec_tracing = [''nvtx'']"

definition spec_catalogue :: "string list" where
  "spec_catalogue = spec_entry_points @ spec_readers @ spec_interchange @ spec_tracing"

section \<open>The engine behind the registry\<close>

text \<open>
  The submodules the registry imports (\<open>join\<close>, \<open>groupby\<close>, \<open>hash\<close> and the others) are
  not among the sources at hand; only the registry is. What follows models the parts of
  the engine that the join and group-by properties are about, from the specification's
  sections 3, 4.1, 4.2, 4.4, 4.5 and 7. Each definition says which sentence it follows.
  The theorems about these definitions are therefore statements about the
  specification's engine, not about code.
\<close>

subsection \<open>Errors, columns and tables\<close>

text \<open>Modelled from the spec: the error kinds of section 7, in its order. The engine's
  own error type is not in the sources.\<close>

datatype error_kind =
  TypeMismatch | Overflow | ShapeMismatch | OutOfMemory | InvalidArgument | UnsupportedType

text \<open>Modelled from the spec: the element type tag of a Column (section 3), a closed
  tagged variant as section 9 asks; integers carry their width in bits. The engine's type
  enumeration is not in the sources.\<close>

datatype type_tag =
    SignedInt nat | UnsignedInt nat | Floating nat | Boolean | Decimal
  | Timestamp | Duration | String | Nested

text \<open>Modelled from the spec: the Column of section 3, whose class is not in the sources:
  a type tag, a row count \<open>n\<close>, a data buffer and an optional null mask with one bit per
  row, \<open>True\<close> for a valid row, whose absence means that every row is valid. Buffers are
  counted in elements and bits, and hold integers (the element types the two examples
  use). The cached null count is left out: nothing below reads it.\<close>

record column =
  dtype :: type_tag
  row_count :: nat
  data :: "int list"
  null_mask :: "bool list option"

text \<open>Modelled from the spec: the Table of section 3, an ordered sequence of Columns.\<close>

type_synonym table = "column list"

text \<open>Modelled from the spec: the Column invariant of section 3, "data buffer length
  \<open>\<ge>\<close> n times element size; null-mask length \<open>\<ge>\<close> ceil(n/8) bytes when present", in
  elements and bits.\<close>

definition column_ok :: "column \<Rightarrow> bool" where
  "column_ok c =
     (row_count c \<le> length (data c)
      \<and> (case null_mask c of None \<Rightarrow> True | Some m \<Rightarrow> row_count c \<le> length m))"

text \<open>Modelled from the spec: the row count of a Table, that of its columns (of the
  first one; a Table without columns has no rows).\<close>

definition num_rows :: "table \<Rightarrow> nat" where
  "num_rows T = (case T of [] \<Rightarrow> 0 | c # cs \<Rightarrow> row_count c)"

text \<open>Modelled from the spec: the Table invariant of section 3, "all columns report
  identical row count", over well-formed columns.\<close>

definition table_ok :: "table \<Rightarrow> bool" where
  "table_ok T = (list_all column_ok T \<and> list_all (\<lambda>c. row_count c = num_rows T) T)"

text \<open>Modelled from the spec: the validity of a row, read from the null mask; "absence
  means all valid".\<close>

definition valid_at :: "column \<Rightarrow> nat \<Rightarrow> bool" where
  "valid_at c i = (case null_mask c of None \<Rightarrow> True | Some m \<Rightarrow> m ! i)"

text \<open>Modelled from the spec: the value of a row, \<open>None\<close> for a null row whatever its
  data word holds (the three-valued reading of section 2).\<close>

definition elem :: "column \<Rightarrow> nat \<Rightarrow> int option" where
  "elem c i = (if valid_at c i then Some (data c ! i) else None)"

subsection \<open>Composite keys and the hash table\<close>

text \<open>Modelled from the spec: the composite key of section 3, "tuple of key-column
  values for a row". Two keys are equal when they agree component by component, a null
  component being equal to a null component and to nothing else: the policy section 4.2
  fixes, "nulls compare equal to nulls for join/groupby key purposes".\<close>

type_synonym key = "int option list"

definition row_key :: "table \<Rightarrow> nat \<Rightarrow> key" where
  "row_key T i = map (\<lambda>c. elem c i) T"

definition row_keys :: "table \<Rightarrow> key list" where
  "row_keys T = map (row_key T) [0..<num_rows T]"

text \<open>Modelled from the spec: the hash table of sections 3 and 4.2, whose code is not
  in the sources. It is a list of buckets; a bucket is the chain of the entries whose key
  hashes to it, in the order they were inserted. The hash function \<open>h\<close> is a parameter,
  the same for build and probe; on keys, so a null component is hashed as a value. The
  number of buckets is the engine's choice: one more than the number of rows, so that a
  table built from no rows still has a bucket to probe.\<close>

definition bucket_index :: "(key \<Rightarrow> nat) \<Rightarrow> nat \<Rightarrow> key \<Rightarrow> nat" where
  "bucket_index h nb k = h k mod nb"

text \<open>Modelled from the spec: a build step, "mapping each row's composite key to its
  row index (multiple rows per key form a chain)".\<close>

definition ht_insert :: "(key \<Rightarrow> nat) \<Rightarrow> (key \<times> nat) list list \<Rightarrow> key \<times> nat
    \<Rightarrow> (key \<times> nat) list list" where
  "ht_insert h tbl e =
     (let b = bucket_index h (length tbl) (fst e) in tbl[b := tbl ! b @ [e]])"

text \<open>Modelled from the spec: "builds a hash table over one Table's key columns".\<close>

definition ht_build :: "(key \<Rightarrow> nat) \<Rightarrow> key list \<Rightarrow> (key \<times> nat) list list" where
  "ht_build h ks =
     foldl (ht_insert h) (replicate (Suc (length ks)) []) (zip ks [0..<length ks])"

text \<open>Modelled from the spec: a probe, which walks the chain of the key's bucket and
  returns the row indices stored under an equal key, "all matches".\<close>

definition ht_probe :: "(key \<Rightarrow> nat) \<Rightarrow> (key \<times> nat) list list \<Rightarrow> key \<Rightarrow> nat list" where
  "ht_probe h tbl k =
     map snd (filter (\<lambda>e. fst e = k) (tbl ! bucket_index h (length tbl) k))"

subsection \<open>The join engine\<close>

text \<open>Modelled from the spec: the variants of section 4.4. Inner, left outer, right
  outer and full outer produce index pairs; left semi and left anti produce probe rows.
  The left Table is the probe side, the right Table the build side.\<close>

datatype join_kind = Inner | LeftOuter | RightOuter | FullOuter

datatype filter_kind = LeftSemi | LeftAnti

text \<open>Modelled from the spec: what a join call checks before it works. The arguments are
  the key columns of the two sides. "One or more key columns"; every Table is well
  formed; "key columns must have pairwise-comparable types or the call fails with
  \<open>TypeMismatch\<close>", comparable read as the same type tag. A Table of no rows passes.\<close>

definition join_check :: "table \<Rightarrow> table \<Rightarrow> error_kind option" where
  "join_check L R =
     (if L = [] \<or> R = [] then Some InvalidArgument
      else if \<not> (table_ok L \<and> table_ok R) then Some ShapeMismatch
      else if map dtype L \<noteq> map dtype R then Some TypeMismatch
      else None)"

text \<open>Modelled from the spec: steps (1) to (3) of section 4.4, "builds a hash table on
  the ... build side, probes with the other side's rows, for each probe row enumerates
  all matching build-side indices".\<close>

definition matches :: "(key \<Rightarrow> nat) \<Rightarrow> key list \<Rightarrow> key list \<Rightarrow> nat list list" where
  "matches h pk bk = map (ht_probe h (ht_build h bk)) pk"

text \<open>Modelled from the spec: step (4), the output index pairs "(left row index, right
  row index; \<open>-1\<close>/sentinel for unmatched ...)"; "multiple matches for one probe row
  expand into multiple output rows in match-discovery order".\<close>

definition pair_up :: "nat \<Rightarrow> nat list \<Rightarrow> (int \<times> int) list" where
  "pair_up i js = map (\<lambda>j. (int i, int j)) js"

definition inner_rows :: "(key \<Rightarrow> nat) \<Rightarrow> key list \<Rightarrow> key list \<Rightarrow> (int \<times> int) list" where
  "inner_rows h pk bk = concat (map2 pair_up [0..<length pk] (matches h pk bk))"

definition outer_rows :: "(key \<Rightarrow> nat) \<Rightarrow> key list \<Rightarrow> key list \<Rightarrow> (int \<times> int) list" where
  "outer_rows h pk bk =
     concat (map2 (\<lambda>i js. if js = [] then [(int i, - 1)] else pair_up i js)
               [0..<length pk] (matches h pk bk))"

text \<open>Modelled from the spec: the build rows that no probe row matched, which the right
  and full outer variants pair with the sentinel.\<close>

definition unmatched_build :: "(key \<Rightarrow> nat) \<Rightarrow> key list \<Rightarrow> key list \<Rightarrow> nat list" where
  "unmatched_build h pk bk =
     filter (\<lambda>j. j \<notin> set (concat (matches h pk bk))) [0..<length bk]"

text \<open>Modelled from the spec: the join entry point for the pair-producing variants:
  "inner (only matches), left/right outer (unmatched probe/build rows paired with
  sentinel), full outer (union of both)". The result is the index pairs or an error
  kind, never both.\<close>

definition hash_join :: "join_kind \<Rightarrow> (key \<Rightarrow> nat) \<Rightarrow> table \<Rightarrow> table
    \<Rightarrow> error_kind + (int \<times> int) list" where
  "hash_join kind h L R =
     (case join_check L R of
        Some e \<Rightarrow> Inl e
      | None \<Rightarrow>
          (let pk = row_keys L; bk = row_keys R;
               rest = map (\<lambda>j. (- 1, int j)) (unmatched_build h pk bk)
           in Inr (case kind of
                     Inner \<Rightarrow> inner_rows h pk bk
                   | LeftOuter \<Rightarrow> outer_rows h pk bk
                   | RightOuter \<Rightarrow> inner_rows h pk bk @ rest
                   | FullOuter \<Rightarrow> outer_rows h pk bk @ rest)))"

text \<open>Modelled from the spec: the join entry point for "left semi (probe rows with
  \<open>\<ge>\<close> 1 match, no duplication), left anti (probe rows with 0 matches)". The rows of the
  right Table without a match on the left, the right anti join, are the left anti join
  with the two sides exchanged.\<close>

definition hash_filter_join :: "filter_kind \<Rightarrow> (key \<Rightarrow> nat) \<Rightarrow> table \<Rightarrow> table
    \<Rightarrow> error_kind + nat list" where
  "hash_filter_join kind h L R =
     (case join_check L R of
        Some e \<Rightarrow> Inl e
      | None \<Rightarrow>
          (let pk = row_keys L; bk = row_keys R;
               ms = zip [0..<length pk] (matches h pk bk)
           in Inr (case kind of
                     LeftSemi \<Rightarrow> map fst (filter (\<lambda>m. snd m \<noteq> []) ms)
                   | LeftAnti \<Rightarrow> map fst (filter (\<lambda>m. snd m = []) ms))))"

subsection \<open>The group-by engine\<close>

text \<open>Modelled from the spec: aggregation kinds of section 4.5, the four commutative
  ones it names first. The accumulator is an unbounded integer or null: the
  specification does not fix the width of an aggregate.\<close>

datatype agg_kind = AggSum | AggMin | AggMax | AggCount

text \<open>Modelled from the spec: the value of a reduction over no valid row (section 4.1):
  "report a null result if all rows are null, or if the column is empty"; a count of no
  rows is zero.\<close>

fun agg_init :: "agg_kind \<Rightarrow> int option" where
  "agg_init AggCount = Some 0"
| "agg_init kind = None"

text \<open>Modelled from the spec: one row folded into an accumulator; "reductions ...
  ignore null rows".\<close>

fun agg_step :: "agg_kind \<Rightarrow> int option \<Rightarrow> int option \<Rightarrow> int option" where
  "agg_step kind acc None = acc"
| "agg_step AggSum acc (Some x) = Some (case acc of None \<Rightarrow> x | Some a \<Rightarrow> a + x)"
| "agg_step AggMin acc (Some x) = Some (case acc of None \<Rightarrow> x | Some a \<Rightarrow> min a x)"
| "agg_step AggMax acc (Some x) = Some (case acc of None \<Rightarrow> x | Some a \<Rightarrow> max a x)"
| "agg_step AggCount acc (Some x) = Some (case acc of None \<Rightarrow> 1 | Some a \<Rightarrow> a + 1)"

text \<open>Modelled from the spec: the hash-based strategy of section 4.5, "hash keys into
  buckets, reduce per bucket". A chain holds one entry per key, the key with its
  accumulator; a row either updates the entry of its key or appends a new one.\<close>

fun chain_update :: "agg_kind \<Rightarrow> key \<Rightarrow> int option \<Rightarrow> (key \<times> int option) list
    \<Rightarrow> (key \<times> int option) list" where
  "chain_update kind k v [] = [(k, agg_step kind (agg_init kind) v)]"
| "chain_update kind k v ((k', a) # es) =
     (if k' = k then (k', agg_step kind a v) # es
      else (k', a) # chain_update kind k v es)"

definition agg_insert :: "agg_kind \<Rightarrow> (key \<Rightarrow> nat) \<Rightarrow> (key \<times> int option) list list
    \<Rightarrow> key \<times> int option \<Rightarrow> (key \<times> int option) list list" where
  "agg_insert kind h tbl e =
     (let b = bucket_index h (length tbl) (fst e)
      in tbl[b := chain_update kind (fst e) (snd e) (tbl ! b)])"

text \<open>Modelled from the spec: what a group-by call checks: at least one key column, and
  key and value columns that form one well-formed Table (equal row counts).\<close>

definition groupby_check :: "table \<Rightarrow> column \<Rightarrow> error_kind option" where
  "groupby_check K v =
     (if K = [] then Some InvalidArgument
      else if \<not> table_ok (K @ [v]) then Some ShapeMismatch
      else None)"

text \<open>Modelled from the spec: the group-by entry point for one (value column,
  aggregation kind) request under the policy "nulls are grouped with other nulls": the
  rows are folded into the table in row order, and the output is "one row per distinct
  key tuple", the key with its aggregate, in bucket order.\<close>

definition hash_groupby :: "agg_kind \<Rightarrow> (key \<Rightarrow> nat) \<Rightarrow> table \<Rightarrow> column
    \<Rightarrow> error_kind + (key \<times> int option) list" where
  "hash_groupby kind h K v =
     (case groupby_check K v of
        Some e \<Rightarrow> Inl e
      | None \<Rightarrow>
          (let n = num_rows K;
               rows = zip (row_keys K) (map (elem v) [0..<n])
           in Inr (concat (foldl (agg_insert kind h) (replicate (Suc n) []) rows))))"

text \<open>Modelled from the spec: the words the group-by contract is stated in. The group of
  a key tuple is the rows that carry it, "groups of identical key tuples"; its aggregate
  is the reduction of the value column over those rows, in row order.\<close>

definition group_rows :: "table \<Rightarrow> key \<Rightarrow> nat list" where
  "group_rows K k = filter (\<lambda>i. row_key K i = k) [0..<num_rows K]"

definition reduce_rows :: "agg_kind \<Rightarrow> column \<Rightarrow> nat list \<Rightarrow> int option" where
  "reduce_rows kind v is = foldl (agg_step kind) (agg_init kind) (map (elem v) is)"

subsection \<open>Inputs of the examples\<close>

text \<open>A hash function that sends every key to one bucket: the worst case for the chains.\<close>

definition zero_hash :: "key \<Rightarrow> nat" where
  "zero_hash k = 0"

text \<open>The join example of section 8: left keys \<open>[1,2,3]\<close>, right keys \<open>[2,3,4]\<close>.\<close>

definition example_left :: table where
  "example_left =
     [\<lparr>dtype = SignedInt 32, row_count = 3, data = [1, 2, 3], null_mask = None\<rparr>]"

definition example_right :: table where
  "example_right =
     [\<lparr>dtype = SignedInt 32, row_count = 3, data = [2, 3, 4], null_mask = None\<rparr>]"

text \<open>A key that occurs once on the left and twice on the right.\<close>

definition dup_left :: table where
  "dup_left = [\<lparr>dtype = SignedInt 32, row_count = 1, data = [1], null_mask = None\<rparr>]"

definition dup_right :: table where
  "dup_right = [\<lparr>dtype = SignedInt 32, row_count = 2, data = [1, 1], null_mask = None\<rparr>]"

text \<open>Keys with a null and no repeated key: left \<open>[1, null, 5]\<close>, right
  \<open>[null, 1, 7]\<close>.\<close>

definition nulls_left :: table where
  "nulls_left =
     [\<lparr>dtype = SignedInt 32, row_count = 3, data = [1, 0, 5],
       null_mask = Some [True, False, True]\<rparr>]"

definition nulls_right :: table where
  "nulls_right =
     [\<lparr>dtype = SignedInt 32, row_count = 3, data = [8, 1, 7],
       null_mask = Some [False, True, True]\<rparr>]"

text \<open>The group-by example of section 8: key column \<open>[1, 2, 1, null]\<close>, value column
  \<open>[10, 20, 30, 40]\<close>. The null row's data word is zero.\<close>

definition example_keys :: table where
  "example_keys =
     [\<lparr>dtype = SignedInt 32, row_count = 4, data = [1, 2, 1, 0],
       null_mask = Some [True, True, True, False]\<rparr>]"

definition example_values :: column where
  "example_values =
     \<lparr>dtype = SignedInt 32, row_count = 4, data = [10, 20, 30, 40], null_mask = None\<rparr>"

text \<open>Two key columns \<open>[7, null, null, 7]\<close> and \<open>[null, null, null, 5]\<close>, with an all-null
  tuple in rows 1 and 2 under different data words, and values \<open>[null, 2, 3, 4]\<close>.\<close>

definition null_pair_keys :: table where
  "null_pair_keys =
     [\<lparr>dtype = SignedInt 32, row_count = 4, data = [7, 0, 9, 7],
       null_mask = Some [True, False, False, True]\<rparr>,
      \<lparr>dtype = SignedInt 32, row_count = 4, data = [0, 3, 4, 5],
       null_mask = Some [False, False, False, True]\<rparr>]"

definition null_pair_values :: column where
  "null_pair_values =
     \<lparr>dtype = SignedInt 32, row_count = 4, data = [1, 2, 3, 4],
      null_mask = Some [False, True, True, True]\<rparr>"

subsection \<open>Notions used in the proofs\<close>

text \<open>The build rows whose key is \<open>k\<close>, and the probe rows with and without a match: what
  the hash table computes, said without it.\<close>

definition eq_rows :: "key list \<Rightarrow> key \<Rightarrow> nat list" where
  "eq_rows ks k = filter (\<lambda>j. ks ! j = k) [0..<length ks]"

definition semi_keys :: "key list \<Rightarrow> key list \<Rightarrow> nat list" where
  "semi_keys pk bk = filter (\<lambda>i. pk ! i \<in> set bk) [0..<length pk]"

definition anti_keys :: "key list \<Rightarrow> key list \<Rightarrow> nat list" where
  "anti_keys pk bk = filter (\<lambda>i. pk ! i \<notin> set bk) [0..<length pk]"

text \<open>The invariant of the aggregation table (every chain has distinct keys and holds
  only keys of its bucket), the accumulator stored under a key, and the accumulator a key
  must have after a list of rows.\<close>

definition ht_inv :: "(key \<Rightarrow> nat) \<Rightarrow> (key \<times> int option) list list \<Rightarrow> bool" where
  "ht_inv h tbl =
     (0 < length tbl
      \<and> (\<forall>b < length tbl. distinct (map fst (tbl ! b))
             \<and> (\<forall>e \<in> set (tbl ! b). bucket_index h (length tbl) (fst e) = b)))"

definition ht_lookup :: "(key \<Rightarrow> nat) \<Rightarrow> (key \<times> int option) list list \<Rightarrow> key
    \<Rightarrow> int option option" where
  "ht_lookup h tbl k = map_of (tbl ! bucket_index h (length tbl) k) k"

definition acc_of :: "agg_kind \<Rightarrow> (key \<times> int option) list \<Rightarrow> key \<Rightarrow> int option" where
  "acc_of kind es k =
     foldl (agg_step kind) (agg_init kind) (map snd (filter (\<lambda>e. fst e = k) es))"

section \<open>Properties of the registry\<close>

lemma imported_names_lib_init:
  "imported_names lib_init =
     [''avro'', ''binops'', ''concat'', ''copying'', ''csv'', ''cudf'', ''dlpack'',
      ''gpuarrow'', ''groupby'', ''hash'', ''issorted'', ''join'', ''json'', ''nvtx'',
      ''orc'', ''parquet'', ''quantile'', ''reduce'', ''replace'', ''rolling'',
      ''search'', ''sort'', ''stream_compaction'', ''transpose'', ''typecast'',
      ''unaryops'', ''utils'']"
  by (simp add: lib_init_def)

text \<open>
  C1. The module is a registry and nothing else: each of its statements is an import, it
  defines no function and no class, and every engine entry point of the binding contract
  and every file-format reader is among the names it imports, under that very name.
\<close>

theorem registry_only_reexports:
  "list_all is_import lib_init
   \<and> defined_functions lib_init = []
   \<and> defined_classes lib_init = []
   \<and> set spec_entry_points \<subseteq> set (imported_names lib_init)
   \<and> set spec_readers \<subseteq> set (imported_names lib_init)"
  unfolding imported_names_lib_init
  by (simp add: lib_init_def spec_entry_points_def spec_readers_def)

subsection \<open>Loading the submodules\<close>

lemma load_all_ok:
  "list_all (\<lambda>n. loads (qualify pkg n)) ns \<Longrightarrow>
   load_all loads pkg ns acc = Inr (acc @ map (qualify pkg) ns)"
  by (induction ns arbitrary: acc) simp_all

lemma load_all_fail:
  "\<not> list_all (\<lambda>n. loads (qualify pkg n)) ns \<Longrightarrow>
   \<exists>n. n \<in> set ns \<and> \<not> loads (qualify pkg n)
       \<and> load_all loads pkg ns acc = Inl (ImportError n)"
proof (induction ns arbitrary: acc)
  case Nil
  then show ?case by simp
next
  case (Cons m ms)
  show ?case
  proof (cases "loads (qualify pkg m)")
    case True
    with Cons.prems have "\<not> list_all (\<lambda>n. loads (qualify pkg n)) ms" by simp
    from Cons.IH [OF this, of "acc @ [qualify pkg m]"] True show ?thesis by auto
  next
    case False
    then show ?thesis by auto
  qed
qed

lemma length_imported: "length (imported_names lib_init) = 27"
  unfolding imported_names_lib_init by simp

lemma distinct_imported: "distinct (imported_names lib_init)"
  unfolding imported_names_lib_init by simp

lemma import_package_unfold:
  "import_package loads =
     (case load_all loads lib_package (imported_names lib_init) [] of
        Inl e \<Rightarrow> Inl e
      | Inr loaded \<Rightarrow>
          Inr \<lparr>sys_modules = loaded,
               namespace = map (\<lambda>n. (n, qualify lib_package n)) (imported_names lib_init)\<rparr>)"
  by (simp add: import_package_def lib_init_def split: sum.splits)

text \<open>
  C9, as amended. The statement lists 27 submodules, not 28. Importing the package loads
  all 27 while the module body runs and binds exactly those 27 names, each to its
  submodule; the import succeeds exactly when every one of the 27 loads, and otherwise
  it raises the import error of a submodule that did not load and leaves no package.
\<close>

theorem import_package_all_or_nothing:
  "(if list_all (\<lambda>n. loads (qualify lib_package n)) (imported_names lib_init)
    then import_package loads =
           Inr \<lparr>sys_modules = map (qualify lib_package) (imported_names lib_init),
                namespace = map (\<lambda>n. (n, qualify lib_package n)) (imported_names lib_init)\<rparr>
    else \<exists>n. n \<in> set (imported_names lib_init) \<and> \<not> loads (qualify lib_package n)
             \<and> import_package loads = Inl (ImportError n))
   \<and> length (imported_names lib_init) = 27
   \<and> distinct (imported_names lib_init)"
proof (cases "list_all (\<lambda>n. loads (qualify lib_package n)) (imported_names lib_init)")
  case True
  from load_all_ok [OF this, of "[]"] True show ?thesis
    by (simp add: import_package_unfold length_imported distinct_imported)
next
  case False
  from load_all_fail [OF this, of "[]"] False show ?thesis
    by (auto simp add: import_package_unfold length_imported distinct_imported)
qed

text \<open>The theorem at the two installations: with every module loading the package is
  imported with its 27 bindings; with the JSON reader failing the import raises.\<close>

theorem import_package_witness:
  "import_package loads_everything =
     Inr \<lparr>sys_modules = map (qualify lib_package) (imported_names lib_init),
          namespace = map (\<lambda>n. (n, qualify lib_package n)) (imported_names lib_init)\<rparr>
   \<and> (\<exists>n. n \<in> set (imported_names lib_init)
          \<and> import_package loads_all_but_json = Inl (ImportError n))"
proof -
  have a: "list_all (\<lambda>n. loads_everything (qualify lib_package n)) (imported_names lib_init)"
    by (simp add: loads_everything_def list_all_iff)
  have b: "\<not> list_all (\<lambda>n. loads_all_but_json (qualify lib_package n))
              (imported_names lib_init)"
    unfolding imported_names_lib_init
    by (simp add: loads_all_but_json_def qualify_def lib_package_def)
  from import_package_all_or_nothing [of loads_everything] a
    import_package_all_or_nothing [of loads_all_but_json] b
  show ?thesis by auto
qed

text \<open>The count of the claim as it was stated, 28, is not the count of the file.\<close>

theorem submodule_count_counterexample:
  "length (imported_names lib_init) = 27 \<and> length (imported_names lib_init) \<noteq> 28"
  unfolding imported_names_lib_init by simp

text \<open>
  C10. Six of the imported names are outside the catalogue the specification names:
  \<open>concat\<close>, \<open>copying\<close>, \<open>cudf\<close>, \<open>issorted\<close>, \<open>replace\<close> and \<open>utils\<close>. The other 21,
  among them \<open>nvtx\<close> (tracing) and \<open>gpuarrow\<close> and \<open>dlpack\<close> (interchange), are all in it,
  and every name of the catalogue is imported.
\<close>

theorem names_outside_catalogue:
  "filter (\<lambda>n. n \<notin> set spec_catalogue) (imported_names lib_init) =
     [''concat'', ''copying'', ''cudf'', ''issorted'', ''replace'', ''utils'']
   \<and> set spec_catalogue \<subseteq> set (imported_names lib_init)
   \<and> set spec_interchange = {''gpuarrow'', ''dlpack''}
   \<and> set spec_tracing = {''nvtx''}
   \<and> length spec_catalogue = 21"
  unfolding imported_names_lib_init
  by (simp add: spec_catalogue_def spec_entry_points_def spec_readers_def
      spec_interchange_def spec_tracing_def)

section \<open>Properties of the join engine\<close>

subsection \<open>What a probe of the built table returns\<close>

lemma length_ht_insert: "length (ht_insert h tbl e) = length tbl"
  by (simp add: ht_insert_def Let_def)

lemma length_foldl_ht_insert: "length (foldl (ht_insert h) tbl es) = length tbl"
  by (induction es arbitrary: tbl) (simp_all add: length_ht_insert)

lemma bucket_index_less: "0 < nb \<Longrightarrow> bucket_index h nb k < nb"
  by (simp add: bucket_index_def)

lemma foldl_ht_insert_bucket:
  "0 < length tbl \<Longrightarrow> b < length tbl \<Longrightarrow>
   foldl (ht_insert h) tbl es ! b =
     tbl ! b @ filter (\<lambda>e. bucket_index h (length tbl) (fst e) = b) es"
proof (induction es arbitrary: tbl)
  case Nil
  then show ?case by simp
next
  case (Cons e es)
  let ?t = "ht_insert h tbl e"
  have len: "length ?t = length tbl" by (rule length_ht_insert)
  have step: "?t ! b = (if bucket_index h (length tbl) (fst e) = b then tbl ! b @ [e] else tbl ! b)"
    using Cons.prems by (simp add: ht_insert_def Let_def nth_list_update bucket_index_less)
  from Cons.IH [of ?t] Cons.prems len step show ?case by simp
qed

lemma zip_upt_conv:
  "zip xs [0..<length xs] = map (\<lambda>i. (xs ! i, i)) [0..<length xs]"
  by (rule nth_equalityI) simp_all

lemma ht_probe_build: "ht_probe h (ht_build h ks) k = eq_rows ks k"
proof -
  let ?nb = "Suc (length ks)"
  let ?b = "bucket_index h ?nb k"
  have len: "length (ht_build h ks) = ?nb"
    by (simp add: ht_build_def length_foldl_ht_insert)
  have lt: "?b < ?nb" by (rule bucket_index_less) simp
  have empty: "replicate ?nb ([] :: (key \<times> nat) list) ! ?b = []"
    using lt by (simp only: nth_replicate)
  have chain: "ht_build h ks ! ?b =
      filter (\<lambda>e. bucket_index h ?nb (fst e) = ?b) (zip ks [0..<length ks])"
    unfolding ht_build_def
    using foldl_ht_insert_bucket [of "replicate ?nb []" ?b h "zip ks [0..<length ks]"] lt empty
    by (simp del: replicate_Suc)
  have "filter (\<lambda>e. fst e = k) (ht_build h ks ! ?b) =
        filter (\<lambda>e. fst e = k) (zip ks [0..<length ks])"
    unfolding chain filter_filter by (rule filter_cong) auto
  then show ?thesis
    unfolding ht_probe_def len eq_rows_def
    by (simp add: zip_upt_conv filter_map comp_def)
qed

lemma matches_conv: "matches h pk bk = map (eq_rows bk) pk"
  by (simp add: matches_def ht_probe_build)

lemma eq_rows_empty_iff: "eq_rows ks k = [] \<longleftrightarrow> k \<notin> set ks"
  by (auto simp add: eq_rows_def filter_empty_conv in_set_conv_nth)

lemma set_eq_rows: "set (eq_rows ks k) = {j. j < length ks \<and> ks ! j = k}"
  by (auto simp add: eq_rows_def)

lemma length_map2_snd:
  "length xs = length yss \<Longrightarrow> (\<And>x ys. length (f x ys) = g ys) \<Longrightarrow>
   length (concat (map2 f xs yss)) = sum_list (map g yss)"
proof -
  assume len: "length xs = length yss" and f: "\<And>x ys. length (f x ys) = g ys"
  have "map length (map2 f xs yss) = map (g \<circ> snd) (zip xs yss)"
    by (simp add: f split_def comp_def)
  also have "\<dots> = map g (map snd (zip xs yss))" by simp
  also have "\<dots> = map g yss" using len by simp
  finally show ?thesis by (simp add: length_concat)
qed

lemma length_inner_rows:
  "length (inner_rows h pk bk) = sum_list (map (\<lambda>k. length (eq_rows bk k)) pk)"
proof -
  have "length (inner_rows h pk bk) = sum_list (map length (map (eq_rows bk) pk))"
    unfolding inner_rows_def matches_conv
    by (rule length_map2_snd) (simp_all add: pair_up_def)
  then show ?thesis by (simp add: comp_def)
qed

lemma length_outer_rows:
  "length (outer_rows h pk bk) = sum_list (map (\<lambda>k. max 1 (length (eq_rows bk k))) pk)"
proof -
  have "length (outer_rows h pk bk) =
        sum_list (map (\<lambda>js. max 1 (length js)) (map (eq_rows bk) pk))"
    unfolding outer_rows_def matches_conv
    by (rule length_map2_snd) (simp_all add: pair_up_def max_def Suc_le_eq)
  then show ?thesis by (simp add: comp_def)
qed

lemma sum_list_max_one:
  "sum_list (map (\<lambda>k. max 1 (f k)) ks) =
   sum_list (map f ks) + length (filter (\<lambda>k. f k = (0::nat)) ks)"
  by (induction ks) (auto simp add: max_def)

lemma filter_zip_upt:
  "map fst (filter (\<lambda>m. P (snd m)) (zip [0..<length ks] (map f ks))) =
   filter (\<lambda>i. P (f (ks ! i))) [0..<length ks]"
proof -
  have "zip [0..<length ks] (map f ks) = map (\<lambda>i. (i, f (ks ! i))) [0..<length ks]"
    by (rule nth_equalityI) simp_all
  then show ?thesis by (simp add: filter_map comp_def)
qed

lemma length_filter_upt_nth:
  "length (filter (\<lambda>i. P (ks ! i)) [0..<length ks]) = length (filter P ks)"
proof -
  have "map (\<lambda>i. ks ! i) (filter (\<lambda>i. P (ks ! i)) [0..<length ks]) =
        filter P (map (\<lambda>i. ks ! i) [0..<length ks])"
    by (simp add: filter_map comp_def)
  also have "map (\<lambda>i. ks ! i) [0..<length ks] = ks" by (rule map_nth)
  finally have "length (map (\<lambda>i. ks ! i) (filter (\<lambda>i. P (ks ! i)) [0..<length ks])) =
     length (filter P ks)" by simp
  then show ?thesis by simp
qed

lemma semi_conv:
  "map fst (filter (\<lambda>m. snd m \<noteq> []) (zip [0..<length pk] (matches h pk bk))) = semi_keys pk bk"
  unfolding matches_conv semi_keys_def
  using filter_zip_upt [of "\<lambda>js. js \<noteq> []" pk "eq_rows bk"]
  by (simp add: eq_rows_empty_iff)

lemma anti_conv:
  "map fst (filter (\<lambda>m. snd m = []) (zip [0..<length pk] (matches h pk bk))) = anti_keys pk bk"
  unfolding matches_conv anti_keys_def
  using filter_zip_upt [of "\<lambda>js. js = []" pk "eq_rows bk"]
  by (simp add: eq_rows_empty_iff)

lemma unmatched_build_conv: "unmatched_build h pk bk = anti_keys bk pk"
  unfolding unmatched_build_def anti_keys_def matches_conv
  by (rule filter_cong) (auto simp add: set_eq_rows)

lemma length_outer_inner:
  "length (outer_rows h pk bk) = length (inner_rows h pk bk) + length (anti_keys pk bk)"
proof -
  have "length (filter (\<lambda>k. length (eq_rows bk k) = 0) pk) = length (anti_keys pk bk)"
    unfolding anti_keys_def
    using length_filter_upt_nth [of "\<lambda>k. k \<notin> set bk" pk]
    by (simp add: eq_rows_empty_iff)
  then show ?thesis
    unfolding length_outer_rows length_inner_rows sum_list_max_one by (rule arg_cong)
qed

lemma length_filter_indicator:
  "length (filter P xs) = sum_list (map (\<lambda>x. if P x then 1 else 0) xs)"
  by (induction xs) simp_all

lemma count_swap:
  "sum_list (map (\<lambda>x. length (filter (P x) ys)) xs) =
   sum_list (map (\<lambda>y. length (filter (\<lambda>x. P x y) xs)) ys)"
proof (induction xs)
  case Nil
  then show ?case by simp
next
  case (Cons x xs)
  have "sum_list (map (\<lambda>y. length (filter (\<lambda>x. P x y) (x # xs))) ys) =
        sum_list (map (\<lambda>y. (if P x y then 1 else 0) + length (filter (\<lambda>x. P x y) xs)) ys)"
    by (rule arg_cong [where f = sum_list]) simp
  also have "\<dots> = sum_list (map (\<lambda>y. if P x y then 1 else 0) ys) +
                   sum_list (map (\<lambda>y. length (filter (\<lambda>x. P x y) xs)) ys)"
    by (simp add: sum_list_addf)
  finally show ?case using Cons.IH by (simp add: length_filter_indicator [of "P x"])
qed

lemma length_eq_rows: "length (eq_rows ks k) = length (filter (\<lambda>k'. k' = k) ks)"
  unfolding eq_rows_def by (rule length_filter_upt_nth)

lemma length_inner_rows_swap: "length (inner_rows h pk bk) = length (inner_rows h bk pk)"
proof -
  have "sum_list (map (\<lambda>k. length (filter (\<lambda>k'. k' = k) bk)) pk) =
        sum_list (map (\<lambda>k'. length (filter (\<lambda>k. k' = k) pk)) bk)"
    by (rule count_swap)
  also have "\<dots> = sum_list (map (\<lambda>k'. length (filter (\<lambda>k. k = k') pk)) bk)"
    by (simp add: eq_commute)
  finally show ?thesis by (simp add: length_inner_rows length_eq_rows)
qed

lemma length_filter_eq_distinct:
  "distinct xs \<Longrightarrow> length (filter (\<lambda>x. x = k) xs) = (if k \<in> set xs then 1 else 0)"
  by (induction xs) auto

lemma length_inner_rows_distinct:
  assumes "distinct bk"
  shows "length (inner_rows h pk bk) = length (semi_keys pk bk)"
proof -
  have "length (semi_keys pk bk) = length (filter (\<lambda>k. k \<in> set bk) pk)"
    unfolding semi_keys_def by (rule length_filter_upt_nth)
  also have "\<dots> = sum_list (map (\<lambda>k. if k \<in> set bk then 1 else 0) pk)"
    by (rule length_filter_indicator)
  also have "\<dots> = sum_list (map (\<lambda>k. length (eq_rows bk k)) pk)"
    by (simp add: length_eq_rows length_filter_eq_distinct [OF assms])
  finally show ?thesis by (simp add: length_inner_rows)
qed

lemma inner_le_min_distinct:
  assumes "distinct pk" and "distinct bk"
  shows "length (inner_rows h pk bk)
         \<le> min (length (semi_keys pk bk)) (length (semi_keys bk pk))"
  using length_inner_rows_distinct [OF assms(2), of h pk]
    length_inner_rows_distinct [OF assms(1), of h bk] length_inner_rows_swap [of h pk bk]
  by simp

lemma length_outer_ge: "length pk \<le> length (outer_rows h pk bk)"
proof -
  have "sum_list (map (\<lambda>k. 1) pk) \<le> sum_list (map (\<lambda>k. max 1 (length (eq_rows bk k))) pk)"
    by (rule sum_list_mono) simp
  then show ?thesis by (simp add: length_outer_rows sum_list_triv)
qed


subsection \<open>Row counts of the variants\<close>

lemma join_check_sym: "join_check A B = None \<Longrightarrow> join_check B A = None"
  by (auto simp add: join_check_def split: if_splits)

lemma length_row_keys: "length (row_keys T) = num_rows T"
  by (simp add: row_keys_def)

lemma nth_row_keys: "i < num_rows T \<Longrightarrow> row_keys T ! i = row_key T i"
  by (simp add: row_keys_def)

lemma eq_rows_row_keys:
  "eq_rows (row_keys B) k = filter (\<lambda>j. row_key B j = k) [0..<num_rows B]"
  unfolding eq_rows_def length_row_keys
  by (rule filter_cong) (simp_all add: nth_row_keys)

lemma inner_count_tables:
  "length (inner_rows h (row_keys A) (row_keys B)) =
   (\<Sum>i\<leftarrow>[0..<num_rows A].
      length (filter (\<lambda>j. row_key B j = row_key A i) [0..<num_rows B]))"
  unfolding length_inner_rows eq_rows_row_keys
  by (simp add: row_keys_def comp_def)

lemma semi_keys_tables:
  "semi_keys (row_keys A) (row_keys B) =
   filter (\<lambda>i. row_key A i \<in> set (row_keys B)) [0..<num_rows A]"
  unfolding semi_keys_def length_row_keys
  by (rule filter_cong) (simp_all add: nth_row_keys)

lemma anti_keys_tables:
  "anti_keys (row_keys A) (row_keys B) =
   filter (\<lambda>i. row_key A i \<notin> set (row_keys B)) [0..<num_rows A]"
  unfolding anti_keys_def length_row_keys
  by (rule filter_cong) (simp_all add: nth_row_keys)

lemma hash_join_ok:
  "join_check A B = None \<Longrightarrow>
   hash_join Inner h A B = Inr (inner_rows h (row_keys A) (row_keys B))
   \<and> hash_join LeftOuter h A B = Inr (outer_rows h (row_keys A) (row_keys B))
   \<and> hash_join FullOuter h A B =
       Inr (outer_rows h (row_keys A) (row_keys B)
            @ map (\<lambda>j. (- 1, int j)) (anti_keys (row_keys B) (row_keys A)))"
  by (simp add: hash_join_def Let_def unmatched_build_conv)

lemma hash_filter_join_ok:
  "join_check A B = None \<Longrightarrow>
   hash_filter_join LeftSemi h A B = Inr (semi_keys (row_keys A) (row_keys B))
   \<and> hash_filter_join LeftAnti h A B = Inr (anti_keys (row_keys A) (row_keys B))"
  by (simp add: hash_filter_join_def Let_def semi_conv anti_conv)

lemma row_keys_example_left: "row_keys example_left = [[Some 1], [Some 2], [Some 3]]"
  by code_simp

lemma row_keys_example_right: "row_keys example_right = [[Some 2], [Some 3], [Some 4]]"
  by code_simp

lemma join_check_example: "join_check example_left example_right = None"
  by code_simp

lemma example_matches:
  "map (eq_rows [[Some 2], [Some 3], [Some 4]]) [[Some 1], [Some 2], [Some 3]] = [[], [0], [1]]"
  by code_simp

lemma example_inner: "hash_join Inner h example_left example_right = Inr [(1, 0), (2, 1)]"
proof -
  have "inner_rows h [[Some 1], [Some 2], [Some 3]] [[Some 2], [Some 3], [Some 4]] = [(1, 0), (2, 1)]"
    unfolding inner_rows_def matches_conv example_matches
    by (simp add: pair_up_def upt_rec)
  then show ?thesis
    using hash_join_ok [OF join_check_example, of h]
    by (simp add: row_keys_example_left row_keys_example_right)
qed

text \<open>
  C4, as amended. For key Tables \<open>A\<close> (probe side) and \<open>B\<close> (build side) that pass the
  join's checks, every variant returns a result, and: the inner-join row count is the sum
  over the probe rows of the number of build rows with an equal key; when no key repeats
  on either side, it is at most the smaller of the two counts of rows with at least one
  match; the left-outer row count is at least the probe-side row count; the
  full-outer row count is the inner count plus the left-anti count plus the right-anti
  count. All this for every hash function. And the inner join of left keys \<open>[1,2,3]\<close>
  with right keys \<open>[2,3,4]\<close> is exactly the two index pairs \<open>(1,0)\<close> and \<open>(2,1)\<close>, which
  pair the keys \<open>(2,2)\<close> and \<open>(3,3)\<close>.
\<close>

theorem hash_join_row_counts:
  "(join_check A B = None \<longrightarrow>
      (\<exists>inner left full semi_a semi_b anti_a anti_b.
          hash_join Inner h A B = Inr inner
        \<and> hash_join LeftOuter h A B = Inr left
        \<and> hash_join FullOuter h A B = Inr full
        \<and> hash_filter_join LeftSemi h A B = Inr semi_a
        \<and> hash_filter_join LeftSemi h B A = Inr semi_b
        \<and> hash_filter_join LeftAnti h A B = Inr anti_a
        \<and> hash_filter_join LeftAnti h B A = Inr anti_b
        \<and> semi_a = filter (\<lambda>i. row_key A i \<in> set (row_keys B)) [0..<num_rows A]
        \<and> semi_b = filter (\<lambda>j. row_key B j \<in> set (row_keys A)) [0..<num_rows B]
        \<and> anti_a = filter (\<lambda>i. row_key A i \<notin> set (row_keys B)) [0..<num_rows A]
        \<and> anti_b = filter (\<lambda>j. row_key B j \<notin> set (row_keys A)) [0..<num_rows B]
        \<and> length inner =
            (\<Sum>i\<leftarrow>[0..<num_rows A].
               length (filter (\<lambda>j. row_key B j = row_key A i) [0..<num_rows B]))
        \<and> (distinct (row_keys A) \<and> distinct (row_keys B) \<longrightarrow>
             length inner \<le> min (length semi_a) (length semi_b))
        \<and> num_rows A \<le> length left
        \<and> length full = length inner + length anti_a + length anti_b))
   \<and> hash_join Inner h example_left example_right = Inr [(1, 0), (2, 1)]
   \<and> map (\<lambda>(i, j). (row_key example_left (nat i), row_key example_right (nat j)))
        [(1, 0), (2, 1)] = [([Some 2], [Some 2]), ([Some 3], [Some 3])]"
proof (intro conjI impI)
  assume ok: "join_check A B = None"
  let ?pk = "row_keys A" and ?bk = "row_keys B"
  have bound: "distinct ?pk \<and> distinct ?bk \<longrightarrow>
      length (inner_rows h ?pk ?bk) \<le> min (length (semi_keys ?pk ?bk)) (length (semi_keys ?bk ?pk))"
    using inner_le_min_distinct [of ?pk ?bk h] by blast
  have left: "num_rows A \<le> length (outer_rows h ?pk ?bk)"
    using length_outer_ge [of ?pk h ?bk] by (simp add: length_row_keys)
  have full: "length (outer_rows h ?pk ?bk @ map (\<lambda>j. (- 1, int j)) (anti_keys ?bk ?pk)) =
      length (inner_rows h ?pk ?bk) + length (anti_keys ?pk ?bk) + length (anti_keys ?bk ?pk)"
    by (simp add: length_outer_inner)
  from hash_join_ok [OF ok, of h] hash_filter_join_ok [OF ok, of h]
    hash_filter_join_ok [OF join_check_sym [OF ok], of h]
    bound left full
  show "\<exists>inner left full semi_a semi_b anti_a anti_b.
          hash_join Inner h A B = Inr inner
        \<and> hash_join LeftOuter h A B = Inr left
        \<and> hash_join FullOuter h A B = Inr full
        \<and> hash_filter_join LeftSemi h A B = Inr semi_a
        \<and> hash_filter_join LeftSemi h B A = Inr semi_b
        \<and> hash_filter_join LeftAnti h A B = Inr anti_a
        \<and> hash_filter_join LeftAnti h B A = Inr anti_b
        \<and> semi_a = filter (\<lambda>i. row_key A i \<in> set (row_keys B)) [0..<num_rows A]
        \<and> semi_b = filter (\<lambda>j. row_key B j \<in> set (row_keys A)) [0..<num_rows B]
        \<and> anti_a = filter (\<lambda>i. row_key A i \<notin> set (row_keys B)) [0..<num_rows A]
        \<and> anti_b = filter (\<lambda>j. row_key B j \<notin> set (row_keys A)) [0..<num_rows B]
        \<and> length inner =
            (\<Sum>i\<leftarrow>[0..<num_rows A].
               length (filter (\<lambda>j. row_key B j = row_key A i) [0..<num_rows B]))
        \<and> (distinct (row_keys A) \<and> distinct (row_keys B) \<longrightarrow>
             length inner \<le> min (length semi_a) (length semi_b))
        \<and> num_rows A \<le> length left
        \<and> length full = length inner + length anti_a + length anti_b"
    by (simp add: semi_keys_tables anti_keys_tables inner_count_tables)
next
  show "hash_join Inner h example_left example_right = Inr [(1, 0), (2, 1)]"
    by (rule example_inner)
next
  show "map (\<lambda>(i, j). (row_key example_left (nat i), row_key example_right (nat j)))
        [(1, 0), (2, 1)] = [([Some 2], [Some 2]), ([Some 3], [Some 3])]"
    by code_simp
qed

text \<open>
  C4 as it was stated: its bound, the inner-join row count at most the smaller of the
  two counts of rows with a match, fails where a key repeats: one left row with key
  1 and two right rows with key 1 give two output rows, while one row has a match on the
  left and two on the right.
\<close>

theorem inner_join_bound_counterexample:
  "hash_join Inner zero_hash dup_left dup_right = Inr [(0, 0), (0, 1)]
   \<and> hash_filter_join LeftSemi zero_hash dup_left dup_right = Inr [0]
   \<and> hash_filter_join LeftSemi zero_hash dup_right dup_left = Inr [0, 1]
   \<and> \<not> length [(0, 0), (0, 1) :: int \<times> int] \<le> min (length [0 :: nat]) (length [0, 1 :: nat])"
  by code_simp

lemma nulls_example_facts:
  "join_check nulls_left nulls_right = None"
  "filter (\<lambda>i. row_key nulls_left i \<in> set (row_keys nulls_right)) [0..<num_rows nulls_left]
     = [0, 1]"
  "filter (\<lambda>j. row_key nulls_right j \<in> set (row_keys nulls_left)) [0..<num_rows nulls_right]
     = [0, 1]"
  "filter (\<lambda>i. row_key nulls_left i \<notin> set (row_keys nulls_right)) [0..<num_rows nulls_left]
     = [2]"
  "filter (\<lambda>j. row_key nulls_right j \<notin> set (row_keys nulls_left)) [0..<num_rows nulls_right]
     = [2]"
  "(\<Sum>i\<leftarrow>[0..<num_rows nulls_left].
      length (filter (\<lambda>j. row_key nulls_right j = row_key nulls_left i)
                [0..<num_rows nulls_right])) = 2"
  "num_rows nulls_left = 3"
  by code_simp+

lemma nulls_example_distinct:
  "distinct (row_keys nulls_left) \<and> distinct (row_keys nulls_right)"
  by code_simp

text \<open>The theorem at left keys \<open>[1, null, 5]\<close> and right keys \<open>[null, 1, 7]\<close>, where no
  key repeats: the null row matches the null row, so two inner rows, two rows with a
  match on each side, and four full-outer rows.\<close>

theorem hash_join_row_counts_witness:
  "join_check nulls_left nulls_right = None
   \<and> distinct (row_keys nulls_left) \<and> distinct (row_keys nulls_right)
   \<and> (\<exists>inner left full.
          hash_join Inner zero_hash nulls_left nulls_right = Inr inner
        \<and> hash_join LeftOuter zero_hash nulls_left nulls_right = Inr left
        \<and> hash_join FullOuter zero_hash nulls_left nulls_right = Inr full
        \<and> hash_filter_join LeftSemi zero_hash nulls_left nulls_right = Inr [0, 1]
        \<and> hash_filter_join LeftSemi zero_hash nulls_right nulls_left = Inr [0, 1]
        \<and> hash_filter_join LeftAnti zero_hash nulls_left nulls_right = Inr [2]
        \<and> hash_filter_join LeftAnti zero_hash nulls_right nulls_left = Inr [2]
        \<and> length inner = 2
        \<and> length inner \<le> min (length [0, 1 :: nat]) (length [0, 1 :: nat])
        \<and> 3 \<le> length left \<and> length full = 4)"
proof -
  have ok: "join_check nulls_left nulls_right = None" by (rule nulls_example_facts(1))
  note d = nulls_example_distinct
  from hash_join_row_counts [of nulls_left nulls_right zero_hash]
  have "join_check nulls_left nulls_right = None \<longrightarrow>
      (\<exists>inner left full semi_a semi_b anti_a anti_b.
          hash_join Inner zero_hash nulls_left nulls_right = Inr inner
        \<and> hash_join LeftOuter zero_hash nulls_left nulls_right = Inr left
        \<and> hash_join FullOuter zero_hash nulls_left nulls_right = Inr full
        \<and> hash_filter_join LeftSemi zero_hash nulls_left nulls_right = Inr semi_a
        \<and> hash_filter_join LeftSemi zero_hash nulls_right nulls_left = Inr semi_b
        \<and> hash_filter_join LeftAnti zero_hash nulls_left nulls_right = Inr anti_a
        \<and> hash_filter_join LeftAnti zero_hash nulls_right nulls_left = Inr anti_b
        \<and> semi_a = [0, 1] \<and> semi_b = [0, 1] \<and> anti_a = [2] \<and> anti_b = [2]
        \<and> length inner = 2
        \<and> (distinct (row_keys nulls_left) \<and> distinct (row_keys nulls_right) \<longrightarrow>
             length inner \<le> min (length semi_a) (length semi_b))
        \<and> 3 \<le> length left
        \<and> length full = length inner + length anti_a + length anti_b)"
    unfolding nulls_example_facts(2-6) unfolding nulls_example_facts(7) by (rule conjunct1)
  with ok d obtain inner left full where
    "hash_join Inner zero_hash nulls_left nulls_right = Inr inner"
    "hash_join LeftOuter zero_hash nulls_left nulls_right = Inr left"
    "hash_join FullOuter zero_hash nulls_left nulls_right = Inr full"
    "hash_filter_join LeftSemi zero_hash nulls_left nulls_right = Inr [0, 1]"
    "hash_filter_join LeftSemi zero_hash nulls_right nulls_left = Inr [0, 1]"
    "hash_filter_join LeftAnti zero_hash nulls_left nulls_right = Inr [2]"
    "hash_filter_join LeftAnti zero_hash nulls_right nulls_left = Inr [2]"
    "length inner = 2"
    "length inner \<le> min (length [0, 1 :: nat]) (length [0, 1 :: nat])"
    "3 \<le> length left" "length full = 4"
    by auto
  with ok d show ?thesis by blast
qed

section \<open>Properties of the group-by engine\<close>

lemma map_of_chain_update:
  "map_of (chain_update kind k v c) k' =
     (if k' = k
      then Some (agg_step kind (case map_of c k of None \<Rightarrow> agg_init kind | Some a \<Rightarrow> a) v)
      else map_of c k')"
  by (induction c) auto

lemma keys_chain_update:
  "fst ` set (chain_update kind k v c) = insert k (fst ` set c)"
proof (induction c)
  case Nil
  show ?case by simp
next
  case (Cons e c)
  obtain k' a where e: "e = (k', a)" by (cases e)
  show ?case using Cons.IH by (cases "k' = k") (simp_all add: e insert_commute)
qed

lemma distinct_chain_update:
  "distinct (map fst c) \<Longrightarrow> distinct (map fst (chain_update kind k v c))"
proof (induction c)
  case Nil
  then show ?case by simp
next
  case (Cons e c)
  obtain k' a where e: "e = (k', a)" by (cases e)
  show ?case
  proof (cases "k' = k")
    case True
    with Cons.prems e show ?thesis by simp
  next
    case False
    have "k' \<notin> fst ` set (chain_update kind k v c)"
      using Cons.prems e False by (simp add: keys_chain_update)
    with Cons e False show ?thesis by simp
  qed
qed

lemma length_agg_insert: "length (agg_insert kind h tbl e) = length tbl"
  by (simp add: agg_insert_def Let_def)

lemma ht_inv_agg_insert:
  assumes "ht_inv h tbl"
  shows "ht_inv h (agg_insert kind h tbl e)"
proof -
  let ?nb = "length tbl"
  let ?b = "bucket_index h ?nb (fst e)"
  let ?c = "chain_update kind (fst e) (snd e) (tbl ! ?b)"
  have nb: "0 < ?nb" using assms by (simp add: ht_inv_def)
  have b: "?b < ?nb" using nb by (rule bucket_index_less)
  have new: "agg_insert kind h tbl e = tbl[?b := ?c]"
    by (simp add: agg_insert_def Let_def)
  show ?thesis
    unfolding ht_inv_def new length_list_update
  proof (intro conjI allI impI)
    show "0 < ?nb" by (rule nb)
  next
    fix b' assume b': "b' < ?nb"
    show "distinct (map fst (tbl[?b := ?c] ! b'))"
    proof (cases "b' = ?b")
      case True
      have "distinct (map fst (tbl ! ?b))" using assms b by (simp add: ht_inv_def)
      then show ?thesis using True b by (simp add: distinct_chain_update)
    next
      case False
      then show ?thesis using assms b' by (simp add: ht_inv_def)
    qed
  next
    fix b' assume b': "b' < ?nb"
    show "\<forall>x \<in> set (tbl[?b := ?c] ! b'). bucket_index h ?nb (fst x) = b'"
    proof (cases "b' = ?b")
      case True
      have old: "\<forall>x \<in> set (tbl ! ?b). bucket_index h ?nb (fst x) = ?b"
        using assms b by (simp add: ht_inv_def)
      have "\<forall>k \<in> fst ` set ?c. bucket_index h ?nb k = ?b"
        unfolding keys_chain_update using old by auto
      then show ?thesis using True b by auto
    next
      case False
      then show ?thesis using assms b' by (simp add: ht_inv_def)
    qed
  qed
qed

lemma ht_lookup_agg_insert:
  assumes "0 < length tbl"
  shows "ht_lookup h (agg_insert kind h tbl e) k =
     (if k = fst e
      then Some (agg_step kind
                   (case ht_lookup h tbl (fst e) of None \<Rightarrow> agg_init kind | Some a \<Rightarrow> a) (snd e))
      else ht_lookup h tbl k)"
proof -
  let ?nb = "length tbl"
  have b: "bucket_index h ?nb (fst e) < ?nb" using assms by (rule bucket_index_less)
  have b': "bucket_index h ?nb k < ?nb" using assms by (rule bucket_index_less)
  show ?thesis
    using b b'
    by (simp add: ht_lookup_def agg_insert_def Let_def nth_list_update map_of_chain_update)
qed

lemma ht_inv_empty: "ht_inv h (replicate (Suc n) [])"
  unfolding ht_inv_def by (auto simp del: replicate_Suc)

lemma ht_lookup_empty: "ht_lookup h (replicate (Suc n) []) k = None"
proof -
  have "bucket_index h (Suc n) k < Suc n" by (rule bucket_index_less) simp
  then have "replicate (Suc n) ([] :: (key \<times> int option) list) ! bucket_index h (Suc n) k = []"
    by (simp only: nth_replicate)
  then show ?thesis by (simp add: ht_lookup_def del: replicate_Suc)
qed

lemma foldl_agg_insert:
  "ht_inv h (foldl (agg_insert kind h) (replicate (Suc n) []) es)
   \<and> (\<forall>k. ht_lookup h (foldl (agg_insert kind h) (replicate (Suc n) []) es) k =
            (if k \<in> fst ` set es then Some (acc_of kind es k) else None))"
proof (induction es rule: rev_induct)
  case Nil
  show ?case using ht_inv_empty [of h n] ht_lookup_empty [of h n]
    by (simp del: replicate_Suc)
next
  case (snoc e es)
  let ?t = "foldl (agg_insert kind h) (replicate (Suc n) []) es"
  have inv: "ht_inv h ?t" using snoc.IH by simp
  then have pos: "0 < length ?t" by (simp add: ht_inv_def)
  have look: "\<And>k. ht_lookup h ?t k = (if k \<in> fst ` set es then Some (acc_of kind es k) else None)"
    using snoc.IH by simp
  have empty: "fst e \<notin> fst ` set es \<Longrightarrow> acc_of kind es (fst e) = agg_init kind"
  proof -
    assume "fst e \<notin> fst ` set es"
    then have "\<forall>x \<in> set es. fst x \<noteq> fst e" by (metis image_eqI)
    then have "filter (\<lambda>x. fst x = fst e) es = []"
      by (simp add: filter_empty_conv)
    then show ?thesis by (simp add: acc_of_def)
  qed
  have "\<And>k. ht_lookup h (agg_insert kind h ?t e) k =
      (if k \<in> fst ` set (es @ [e]) then Some (acc_of kind (es @ [e]) k) else None)"
    unfolding ht_lookup_agg_insert [OF pos] look
    using empty by (auto simp add: acc_of_def)
  then show ?case using ht_inv_agg_insert [OF inv, of kind e]
    by (simp del: replicate_Suc)
qed

lemma distinct_concat_buckets:
  "(\<And>i. i < length tbl \<Longrightarrow> distinct (map fst (tbl ! i))) \<Longrightarrow>
   (\<And>i e. i < length tbl \<Longrightarrow> e \<in> set (tbl ! i) \<Longrightarrow> g (fst e) = i + off) \<Longrightarrow>
   distinct (map fst (concat tbl))"
proof (induction tbl arbitrary: off)
  case Nil
  then show ?case by simp
next
  case (Cons c tbl)
  have d: "distinct (map fst c)" using Cons.prems(1) [of 0] by simp
  have rest: "distinct (map fst (concat tbl))"
  proof (rule Cons.IH [of "Suc off"])
    fix i assume "i < length tbl"
    then show "distinct (map fst (tbl ! i))" using Cons.prems(1) [of "Suc i"] by simp
  next
    fix i e assume "i < length tbl" "e \<in> set (tbl ! i)"
    then show "g (fst e) = i + Suc off" using Cons.prems(2) [of "Suc i" e] by simp
  qed
  have disj: "fst ` set c \<inter> fst ` set (concat tbl) = {}"
  proof (rule ccontr)
    assume "fst ` set c \<inter> fst ` set (concat tbl) \<noteq> {}"
    then obtain k where "k \<in> fst ` set c" and "k \<in> fst ` set (concat tbl)" by blast
    then obtain x y where xc: "x \<in> set c" and yt: "y \<in> set (concat tbl)"
      and xy: "fst x = fst y" by (metis imageE)
    from yt obtain c' where c': "c' \<in> set tbl" and yc': "y \<in> set c'" by auto
    from c' obtain i where i: "i < length tbl" and ci: "tbl ! i = c'"
      by (auto simp add: in_set_conv_nth)
    have "g (fst x) = 0 + off" using Cons.prems(2) [of 0 x] xc by simp
    moreover have "g (fst y) = Suc i + off" using Cons.prems(2) [of "Suc i" y] i ci yc' by simp
    ultimately show False using xy by simp
  qed
  show ?case using d rest disj by simp
qed

lemma ht_inv_distinct: "ht_inv h tbl \<Longrightarrow> distinct (map fst (concat tbl))"
  by (rule distinct_concat_buckets [where g = "bucket_index h (length tbl)" and off = 0])
     (simp_all add: ht_inv_def)

lemma ht_inv_set_concat:
  assumes "ht_inv h tbl"
  shows "set (concat tbl) = {(k, a). ht_lookup h tbl k = Some a}"
proof (rule set_eqI)
  fix e :: "key \<times> int option"
  obtain k a where e: "e = (k, a)" by (cases e)
  let ?b = "bucket_index h (length tbl) k"
  have pos: "0 < length tbl" using assms by (simp add: ht_inv_def)
  have b: "?b < length tbl" using pos by (rule bucket_index_less)
  have d: "distinct (map fst (tbl ! ?b))" using assms b by (simp add: ht_inv_def)
  have "(k, a) \<in> set (concat tbl) \<longleftrightarrow> (k, a) \<in> set (tbl ! ?b)"
  proof
    assume "(k, a) \<in> set (concat tbl)"
    then obtain c where c: "c \<in> set tbl" and kc: "(k, a) \<in> set c" by auto
    from c obtain i where i: "i < length tbl" and ci: "tbl ! i = c"
      by (auto simp add: in_set_conv_nth)
    have "(k, a) \<in> set (tbl ! i)" using kc ci by simp
    then have "?b = i" using assms i by (force simp add: ht_inv_def)
    then show "(k, a) \<in> set (tbl ! ?b)" using kc ci by simp
  next
    assume "(k, a) \<in> set (tbl ! ?b)"
    then show "(k, a) \<in> set (concat tbl)" using b by auto
  qed
  also have "\<dots> \<longleftrightarrow> map_of (tbl ! ?b) k = Some a" using d by simp
  finally show "e \<in> set (concat tbl) \<longleftrightarrow> e \<in> {(k, a). ht_lookup h tbl k = Some a}"
    by (simp add: e ht_lookup_def)
qed

lemma groups_of_rows:
  "distinct (map fst (concat (foldl (agg_insert kind h) (replicate (Suc n) []) es)))
   \<and> set (concat (foldl (agg_insert kind h) (replicate (Suc n) []) es)) =
       (\<lambda>k. (k, acc_of kind es k)) ` fst ` set es"
proof -
  let ?t = "foldl (agg_insert kind h) (replicate (Suc n) []) es"
  have inv: "ht_inv h ?t" using foldl_agg_insert [of h kind n es] by simp
  have look: "\<And>k. ht_lookup h ?t k = (if k \<in> fst ` set es then Some (acc_of kind es k) else None)"
    using foldl_agg_insert [of h kind n es] by simp
  have "set (concat ?t) = {(k, a). ht_lookup h ?t k = Some a}"
    using inv by (rule ht_inv_set_concat)
  also have "\<dots> = (\<lambda>k. (k, acc_of kind es k)) ` fst ` set es"
    unfolding look by (force split: if_splits)
  finally show ?thesis using ht_inv_distinct [OF inv] by simp
qed


subsection \<open>The groups of a Table\<close>

lemma groupby_rows_conv:
  "zip (row_keys K) (map (elem v) [0..<num_rows K]) =
   map (\<lambda>i. (row_key K i, elem v i)) [0..<num_rows K]"
  by (rule nth_equalityI) (simp_all add: row_keys_def)

lemma acc_of_rows:
  "acc_of kind (zip (row_keys K) (map (elem v) [0..<num_rows K])) k =
   reduce_rows kind v (group_rows K k)"
  unfolding groupby_rows_conv acc_of_def reduce_rows_def group_rows_def
  by (simp add: filter_map comp_def)

lemma keys_of_rows:
  "fst ` set (zip (row_keys K) (map (elem v) [0..<num_rows K])) = set (row_keys K)"
  unfolding groupby_rows_conv by (force simp add: row_keys_def)

lemma hash_groupby_ok:
  assumes "groupby_check K v = None"
  shows "\<exists>gs. hash_groupby kind h K v = Inr gs
          \<and> distinct (map fst gs)
          \<and> set gs = (\<lambda>k. (k, reduce_rows kind v (group_rows K k))) ` set (row_keys K)"
proof -
  let ?rows = "zip (row_keys K) (map (elem v) [0..<num_rows K])"
  let ?gs = "concat (foldl (agg_insert kind h) (replicate (Suc (num_rows K)) []) ?rows)"
  have run: "hash_groupby kind h K v = Inr ?gs"
    using assms by (simp add: hash_groupby_def Let_def del: replicate_Suc)
  have "set ?gs = (\<lambda>k. (k, acc_of kind ?rows k)) ` fst ` set ?rows"
    using groups_of_rows [of kind h "num_rows K" ?rows] by simp
  then have "set ?gs = (\<lambda>k. (k, reduce_rows kind v (group_rows K k))) ` set (row_keys K)"
    unfolding keys_of_rows acc_of_rows .
  moreover have "distinct (map fst ?gs)"
    using groups_of_rows [of kind h "num_rows K" ?rows] by simp
  ultimately show ?thesis using run by blast
qed

lemma groupby_check_example: "groupby_check example_keys example_values = None"
  by code_simp

lemma row_keys_example: "row_keys example_keys = [[Some 1], [Some 2], [Some 1], [None]]"
  by code_simp

lemma example_sums:
  "reduce_rows AggSum example_values (group_rows example_keys [Some 1]) = Some 40"
  "reduce_rows AggSum example_values (group_rows example_keys [Some 2]) = Some 20"
  "reduce_rows AggSum example_values (group_rows example_keys [None]) = Some 40"
  by code_simp+

lemma length_of_groups:
  "distinct (map fst gs) \<Longrightarrow> length gs = card (fst ` set gs)"
  using distinct_card [of "map fst gs"] by simp

text \<open>
  C6. For key columns and a value column that pass the group-by's checks, the hash-based
  group-by returns one output row per distinct key tuple, null components compared as
  equal to each other (so one group for each tuple with nulls, the all-null tuple
  included), each with the aggregate of the rows that carry that tuple; for every
  aggregation kind and every hash function. And for the key column \<open>[1, 2, 1, null]\<close>
  and the value column \<open>[10, 20, 30, 40]\<close>, summing yields exactly the three groups
  \<open>1 \<mapsto> 40\<close>, \<open>2 \<mapsto> 20\<close>, \<open>null \<mapsto> 40\<close>, in an order that depends on the hash function.
\<close>

theorem hash_groupby_groups:
  "(groupby_check K v = None \<longrightarrow>
      (\<exists>gs. hash_groupby kind h K v = Inr gs
          \<and> distinct (map fst gs)
          \<and> set (map fst gs) = set (row_keys K)
          \<and> set gs = (\<lambda>k. (k, reduce_rows kind v (group_rows K k))) ` set (row_keys K)))
   \<and> (\<exists>gs. hash_groupby AggSum h example_keys example_values = Inr gs
          \<and> length gs = 3
          \<and> set gs = {([Some 1], Some 40), ([Some 2], Some 20), ([None], Some 40)})"
proof (intro conjI impI)
  assume ok: "groupby_check K v = None"
  from hash_groupby_ok [OF ok, of kind h] obtain gs where
    run: "hash_groupby kind h K v = Inr gs" and d: "distinct (map fst gs)"
    and gs: "set gs = (\<lambda>k. (k, reduce_rows kind v (group_rows K k))) ` set (row_keys K)"
    by blast
  have "set (map fst gs) = set (row_keys K)"
    unfolding set_map gs by (simp add: image_image)
  with run d gs show "\<exists>gs. hash_groupby kind h K v = Inr gs
          \<and> distinct (map fst gs)
          \<and> set (map fst gs) = set (row_keys K)
          \<and> set gs = (\<lambda>k. (k, reduce_rows kind v (group_rows K k))) ` set (row_keys K)"
    by blast
next
  from hash_groupby_ok [OF groupby_check_example, of AggSum h] obtain gs where
    run: "hash_groupby AggSum h example_keys example_values = Inr gs"
    and d: "distinct (map fst gs)"
    and gs: "set gs = (\<lambda>k. (k, reduce_rows AggSum example_values (group_rows example_keys k)))
                        ` set (row_keys example_keys)"
    by blast
  have s: "set gs = {([Some 1], Some 40), ([Some 2], Some 20), ([None], Some 40)}"
    unfolding gs row_keys_example by (simp add: example_sums insert_commute)
  have "length gs = card (fst ` set gs)" using d by (rule length_of_groups)
  also have "\<dots> = 3" unfolding s by simp
  finally have "length gs = 3" .
  with run s show "\<exists>gs. hash_groupby AggSum h example_keys example_values = Inr gs
          \<and> length gs = 3
          \<and> set gs = {([Some 1], Some 40), ([Some 2], Some 20), ([None], Some 40)}"
    by blast
qed

lemma null_pair_facts:
  "groupby_check null_pair_keys null_pair_values = None"
  "row_keys null_pair_keys = [[Some 7, None], [None, None], [None, None], [Some 7, Some 5]]"
  "reduce_rows AggSum null_pair_values (group_rows null_pair_keys [Some 7, None]) = None"
  "reduce_rows AggSum null_pair_values (group_rows null_pair_keys [None, None]) = Some 5"
  "reduce_rows AggSum null_pair_values (group_rows null_pair_keys [Some 7, Some 5]) = Some 4"
  by code_simp+

text \<open>The theorem at two key columns with an all-null tuple in two rows (under different
  data words) and a null value: three groups, the group of \<open>(7, null)\<close> with a null sum.\<close>

theorem hash_groupby_groups_witness:
  "groupby_check null_pair_keys null_pair_values = None
   \<and> (\<exists>gs. hash_groupby AggSum zero_hash null_pair_keys null_pair_values = Inr gs
          \<and> distinct (map fst gs)
          \<and> set gs = {([Some 7, None], None), ([None, None], Some 5), ([Some 7, Some 5], Some 4)})"
proof -
  have ok: "groupby_check null_pair_keys null_pair_values = None"
    by (rule null_pair_facts(1))
  from hash_groupby_groups [of null_pair_keys null_pair_values AggSum zero_hash]
  have "\<exists>gs. hash_groupby AggSum zero_hash null_pair_keys null_pair_values = Inr gs
          \<and> distinct (map fst gs)
          \<and> set (map fst gs) = set (row_keys null_pair_keys)
          \<and> set gs = (\<lambda>k. (k, reduce_rows AggSum null_pair_values (group_rows null_pair_keys k)))
                        ` set (row_keys null_pair_keys)"
    using ok by (elim conjE) (erule mp)
  then obtain gs where run: "hash_groupby AggSum zero_hash null_pair_keys null_pair_values = Inr gs"
    and d: "distinct (map fst gs)"
    and s: "set gs = (\<lambda>k. (k, reduce_rows AggSum null_pair_values (group_rows null_pair_keys k)))
                       ` set (row_keys null_pair_keys)"
    by blast
  have s': "set gs = {([Some 7, None], None), ([None, None], Some 5), ([Some 7, Some 5], Some 4)}"
    unfolding s null_pair_facts(2) by (simp add: null_pair_facts)
  show ?thesis
  proof (intro conjI exI)
    show "groupby_check null_pair_keys null_pair_values = None" by (rule ok)
    show "hash_groupby AggSum zero_hash null_pair_keys null_pair_values = Inr gs" by (rule run)
    show "distinct (map fst gs)" by (rule d)
    show "set gs = {([Some 7, None], None), ([None, None], Some 5), ([Some 7, Some 5], Some 4)}"
      by (rule s')
  qed
qed


end
